theory Spec2Isabelle
  imports Main "HOL-Library.Word" "HOL-Library.Sublist" "HOL-Library.Log_Nat"
begin

unbundle bit_operations_syntax

section \<open>JavaScript numbers\<close>

text \<open>
  A JavaScript number is an IEEE 754 double. Every number that the embedded code
  computes is an integer, an infinity or \<open>NaN\<close>, so a number is modelled as such
  (the two zeros are not told apart). \<open>round_to_double\<close> is the double nearest to an
  integer, ties to the even significand: every integer up to \<open>2^53\<close> in magnitude is a
  double; a larger one has more than 53 bits and keeps its leading 53.
  \<open>to_double\<close> adds the overflow to infinity. Sum, difference and product of two
  doubles are the exact result, rounded.
\<close>

datatype js_number = Num int | PosInfinity | NegInfinity | NaN

definition round_to_double :: "int \<Rightarrow> int" where
  "round_to_double x =
     (if \<bar>x\<bar> \<le> 2 ^ 53 then x
      else
        let unit = 2 ^ nat (bitlen \<bar>x\<bar> - 53);
            q = \<bar>x\<bar> div unit;
            r = \<bar>x\<bar> mod unit;
            m = (if 2 * r < unit then q else if unit < 2 * r then q + 1
                 else if even q then q else q + 1)
        in sgn x * (m * unit))"

definition to_double :: "int \<Rightarrow> js_number" where
  "to_double x =
     (let r = round_to_double x
      in if 2 ^ 1024 \<le> r then PosInfinity
         else if r \<le> - (2 ^ 1024) then NegInfinity
         else Num r)"

fun js_neg :: "js_number \<Rightarrow> js_number" where
  "js_neg (Num a) = Num (- a)"
| "js_neg PosInfinity = NegInfinity"
| "js_neg NegInfinity = PosInfinity"
| "js_neg NaN = NaN"

fun js_add :: "js_number \<Rightarrow> js_number \<Rightarrow> js_number" where
  "js_add (Num a) (Num b) = to_double (a + b)"
| "js_add NaN y = NaN"
| "js_add x NaN = NaN"
| "js_add PosInfinity NegInfinity = NaN"
| "js_add NegInfinity PosInfinity = NaN"
| "js_add PosInfinity y = PosInfinity"
| "js_add x PosInfinity = PosInfinity"
| "js_add NegInfinity y = NegInfinity"
| "js_add x NegInfinity = NegInfinity"

definition js_sub :: "js_number \<Rightarrow> js_number \<Rightarrow> js_number" where
  "js_sub x y = js_add x (js_neg y)"

fun js_mul :: "js_number \<Rightarrow> js_number \<Rightarrow> js_number" where
  "js_mul (Num a) (Num b) = to_double (a * b)"
| "js_mul NaN y = NaN"
| "js_mul x NaN = NaN"
| "js_mul (Num a) y = (if a = 0 then NaN else if 0 < a then y else js_neg y)"
| "js_mul x (Num b) = (if b = 0 then NaN else if 0 < b then x else js_neg x)"
| "js_mul PosInfinity y = y"
| "js_mul NegInfinity y = js_neg y"

section \<open>Numeric decoding\<close>

type_synonym byte = "8 word"

subsection \<open>The accumulation loop of \<open>activate\<close>\<close>

text \<open>
  \<^verbatim>\<open>
    const dataBuffer = [0xFD, 0xFE, 0xFF, 0xFF, 0xFF, 0xFF, 0xFF, 0xFF];
    const lastOffset = 0;
    let factor = 1;
    value = 0;
    for (let i = 0; i < lastSize; i++) {
        value += factor * (255 - dataBuffer[lastOffset + i]);
        factor *= 256;
    }
    value++;
  \<close>
  The loop is embedded with its three constants (\<open>dataBuffer\<close>, \<open>lastOffset\<close>,
  \<open>lastSize\<close>) as parameters. The buffer holds bytes; \<open>value\<close> and \<open>factor\<close> are
  JavaScript numbers. An index beyond the buffer reads \<open>undefined\<close>, which is \<open>NaN\<close>
  in the subtraction.
\<close>

definition element :: "byte list \<Rightarrow> nat \<Rightarrow> js_number" where
  "element dataBuffer i = (if i < length dataBuffer then Num (uint (dataBuffer ! i)) else NaN)"

function complement_loop ::
  "byte list \<Rightarrow> nat \<Rightarrow> nat \<Rightarrow> nat \<Rightarrow> js_number \<Rightarrow> js_number \<Rightarrow> js_number" where
  "complement_loop dataBuffer lastOffset lastSize i val factor =
     (if i < lastSize
      then complement_loop dataBuffer lastOffset lastSize (i + 1)
             (js_add val (js_mul factor (js_sub (Num 255) (element dataBuffer (lastOffset + i)))))
             (js_mul factor (Num 256))
      else val)"
  by pat_completeness auto
termination
  by (relation "measure (\<lambda>(dataBuffer, lastOffset, lastSize, i, val, factor). lastSize - i)") auto

declare complement_loop.simps [simp del]

definition complement_accumulate :: "byte list \<Rightarrow> nat \<Rightarrow> nat \<Rightarrow> js_number" where
  "complement_accumulate dataBuffer lastOffset lastSize =
     js_add (complement_loop dataBuffer lastOffset lastSize 0 (Num 0) (Num 1)) (Num 1)"

text \<open>The value that \<open>activate\<close> logs: the loop at the constants of the source.\<close>

definition activate_value :: js_number where
  "activate_value =
     complement_accumulate [0xFD, 0xFE, 0xFF, 0xFF, 0xFF, 0xFF, 0xFF, 0xFF] 0 8"

text \<open>
  Modelled from the spec: \<open>PreciseInteger\<close> (section 4.1), the value type of the
  decoded numbers, is not among the sources. It represents the full range of a field
  of 64 bits or more without rounding: an unbounded integer.
\<close>

type_synonym PreciseInteger = int

subsection \<open>\<open>readInteger\<close> and the reference encoder\<close>

text \<open>
  Modelled from the spec: \<open>readInteger\<close> (section 4.1) is not among the sources; only
  the experiment in \<open>activate\<close> above is. The model follows the words of the
  specification: the read fails with \<open>OutOfBounds\<close> unless
  \<open>byteOffset >= 0\<close> and \<open>byteOffset + byteWidth <= buffer.length\<close>; the value is
  a base-256 positional sum, accumulated byte by byte from the lowest-order byte with an
  increasing power-of-256 factor, in reverse byte order for big-endian; when \<open>signed\<close>
  and the sign bit of the most significant included byte is set, every byte is
  complemented (XOR with 0xFF) before summation, 1 is added, and the result is reported
  as a negative precise integer.
\<close>

datatype decode_error = OutOfBounds

fun base256_sum :: "PreciseInteger \<Rightarrow> PreciseInteger \<Rightarrow> byte list \<Rightarrow> PreciseInteger" where
  "base256_sum val factor [] = val"
| "base256_sum val factor (b # bs) = base256_sum (val + factor * uint b) (factor * 256) bs"

definition readInteger ::
  "byte list \<Rightarrow> int \<Rightarrow> nat \<Rightarrow> bool \<Rightarrow> bool \<Rightarrow> decode_error + PreciseInteger" where
  "readInteger buffer byteOffset byteWidth signed_flag littleEndian =
     (if byteOffset < 0 \<or> int (length buffer) < byteOffset + int byteWidth then Inl OutOfBounds
      else
        let included = take byteWidth (drop (nat byteOffset) buffer);
            ordered = (if littleEndian then included else rev included)
        in if signed_flag \<and> ordered \<noteq> [] \<and> bit (last ordered) 7
           then Inr (- (base256_sum 0 1 (map (\<lambda>b. b XOR 0xFF) ordered) + 1))
           else Inr (base256_sum 0 1 ordered))"

text \<open>
  Modelled from the spec: the reference encoder of section 8 is named there and not
  given. It is taken to be the usual one: the \<open>byteWidth\<close> low-order bytes of the
  value in two's complement, lowest-order byte first for little-endian and last for
  big-endian.
\<close>

fun encode_le :: "nat \<Rightarrow> int \<Rightarrow> byte list" where
  "encode_le 0 v = []"
| "encode_le (Suc n) v = word_of_int v # encode_le n (v div 256)"

definition reference_encode :: "nat \<Rightarrow> bool \<Rightarrow> int \<Rightarrow> byte list" where
  "reference_encode byteWidth littleEndian v =
     (if littleEndian then encode_le byteWidth v else rev (encode_le byteWidth v))"

text \<open>The value of a byte sequence read lowest-order byte first (used in the proofs).\<close>

fun le_value :: "byte list \<Rightarrow> int" where
  "le_value [] = 0"
| "le_value (b # bs) = uint b + 256 * le_value bs"

section \<open>Strings, host calls and exceptions\<close>

text \<open>
  A JavaScript string is a sequence of 16-bit code units. \<open>js\<close> turns a literal into
  one. Array indexing beyond the end yields \<open>undefined\<close>, here \<open>None\<close>.
\<close>

type_synonym jschar = "16 word"
type_synonym jsstring = "jschar list"

definition js :: "string \<Rightarrow> jsstring" where
  "js s = map (\<lambda>c. of_nat (of_char c)) s"

definition index :: "'a list \<Rightarrow> nat \<Rightarrow> 'a option" where
  "index xs i = (if i < length xs then Some (xs ! i) else None)"

text \<open>\<open>vscode.Uri\<close>: the editor code reads its \<open>fsPath\<close> only.\<close>

record uri =
  fsPath :: jsstring

text \<open>
  The calls that the extension makes into its collaborators, in the order made:
  \<open>vscode.window.showErrorMessage\<close>, \<open>vscode.commands.executeCommand\<close> (command,
  uri, view type) and \<open>ParserSelect.updateIfParserFile\<close>.
\<close>

datatype host_call =
    ShowErrorMessage jsstring
  | ExecuteCommand jsstring uri jsstring
  | UpdateIfParserFile "uri list"

text \<open>A thrown value; \<open>Inl\<close> of a result is an exception that leaves the function.\<close>

datatype js_error = Thrown jsstring

definition try_catch :: "js_error + 'a \<Rightarrow> (js_error \<Rightarrow> js_error + 'a) \<Rightarrow> js_error + 'a" where
  "try_catch body handler = (case body of Inl e \<Rightarrow> handler e | Inr v \<Rightarrow> Inr v)"

section \<open>The custom editor provider\<close>

subsection \<open>\<open>openCustomDocument\<close>\<close>

text \<open>
  \<^verbatim>\<open>
    try {
        const filePath = uri.fsPath;
        let fileExt = path.extname(filePath);
        if (fileExt.length >= 1)
            fileExt = fileExt.slice(1);   // Remove the '.'
        const parser = ParserSelect.selectParserFile(fileExt, filePath, undefined);
        if (!parser)
            return undefined;   // Nothing found
        const doc = new EditorDocument();
        doc.uri = uri;
        doc.parser = parser;
        return doc;
    }
    catch (e) {
        console.log(e);
        return undefined;
    }
  \<close>
  \<open>path.extname\<close> (Node's library) and \<open>ParserSelect.selectParserFile\<close> (not among
  the sources) are parameters; the selection may throw. The third argument of the
  selection is the constant \<open>undefined\<close> and is left out. A returned \<open>None\<close> is
  \<open>undefined\<close>. The handler's \<open>console.log\<close> is not part of the result.
\<close>

record 'p editor_document =
  doc_uri :: uri
  doc_parser :: 'p

definition selection_extension :: "(jsstring \<Rightarrow> jsstring) \<Rightarrow> jsstring \<Rightarrow> jsstring" where
  "selection_extension extname filePath =
     (let fileExt = extname filePath
      in if length fileExt \<ge> 1 then drop 1 fileExt else fileExt)"

definition openCustomDocument ::
  "(jsstring \<Rightarrow> jsstring) \<Rightarrow> (jsstring \<Rightarrow> jsstring \<Rightarrow> js_error + 'p option) \<Rightarrow> uri
     \<Rightarrow> js_error + 'p editor_document option" where
  "openCustomDocument extname selectParserFile u =
     try_catch
       (let filePath = fsPath u;
            fileExt = selection_extension extname filePath
        in case selectParserFile fileExt filePath of
             Inl e \<Rightarrow> Inl e
           | Inr None \<Rightarrow> Inr None
           | Inr (Some parser) \<Rightarrow> Inr (Some \<lparr>doc_uri = u, doc_parser = parser\<rparr>))
       (\<lambda>e. Inr None)"

subsection \<open>The \<open>customParserError\<close> message of \<open>resolveCustomEditor\<close>\<close>

text \<open>
  \<^verbatim>\<open>
    case 'customParserError':
        const stacks = message.text.split('\n');
        const match = /.*>:(\d+)/.exec(stacks[1]);
        let line = 0;
        if (match) {
            line = parseInt(match[1]);
            line -= 4;  // The reported number is too high, don't know why.
        }
        ParserSelect.addDiagnosticsMessage(stacks[0], parser.filePath, line);
  \<close>
\<close>

text \<open>\<open>text.split('\n')\<close>: the pieces between the line feeds, at least one piece.\<close>

fun split_newline :: "jsstring \<Rightarrow> jsstring list" where
  "split_newline [] = [[]]"
| "split_newline (c # cs) =
     (if c = 0x0A then [] # split_newline cs
      else (case split_newline cs of [] \<Rightarrow> [[c]] | l # ls \<Rightarrow> (c # l) # ls))"

text \<open>
  The regular expression \<open>/.*>:(\d+)/\<close>. \<open>\d\<close> is an ASCII digit; \<open>.\<close> is any code
  unit but a line terminator (LF, CR, U+2028, U+2029). \<open>match_tail\<close> matches
  \<open>>:(\d+)\<close> at the start of its argument and yields the captured digits, the longest
  run. \<open>match_here\<close> matches the whole expression at the start of its argument: the
  greedy \<open>.*\<close> first takes as many code units as it can and gives them back one by one.
  \<open>regex_exec\<close> is \<open>exec\<close>: the match at the leftmost position that has one; its
  result is group 1.
\<close>

definition is_digit :: "jschar \<Rightarrow> bool" where
  "is_digit c = (0x30 \<le> c \<and> c \<le> 0x39)"

definition is_line_terminator :: "jschar \<Rightarrow> bool" where
  "is_line_terminator c = (c = 0x0A \<or> c = 0x0D \<or> c = 0x2028 \<or> c = 0x2029)"

fun match_tail :: "jsstring \<Rightarrow> jsstring option" where
  "match_tail (a # b # rest) =
     (if a = 0x3E \<and> b = 0x3A \<and> takeWhile is_digit rest \<noteq> []
      then Some (takeWhile is_digit rest) else None)"
| "match_tail _ = None"

fun match_here :: "jsstring \<Rightarrow> jsstring option" where
  "match_here [] = match_tail []"
| "match_here (c # cs) =
     (if is_line_terminator c then match_tail (c # cs)
      else (case match_here cs of Some d \<Rightarrow> Some d | None \<Rightarrow> match_tail (c # cs)))"

fun regex_exec :: "jsstring \<Rightarrow> jsstring option" where
  "regex_exec [] = match_here []"
| "regex_exec (c # cs) =
     (case match_here (c # cs) of Some d \<Rightarrow> Some d | None \<Rightarrow> regex_exec cs)"

text \<open>The text begins with \<open>>:\<close> and a digit (used in the proofs).\<close>

definition starts_with_marker :: "jsstring \<Rightarrow> bool" where
  "starts_with_marker s = (\<exists>d post. s = 0x3E # 0x3A # d # post \<and> is_digit d)"

text \<open>
  \<open>ds\<close> is a longest run of digits that follows some \<open>>:\<close> of the text (used in
  the proofs).
\<close>

definition captured_after_marker :: "jsstring \<Rightarrow> jsstring \<Rightarrow> bool" where
  "captured_after_marker s ds =
     (\<exists>pre post. s = pre @ [0x3E, 0x3A] @ ds @ post \<and> ds \<noteq> [] \<and> (\<forall>c\<in>set ds. is_digit c)
        \<and> (post = [] \<or> \<not> is_digit (hd post)))"

text \<open>
  \<open>parseInt\<close> on a string of decimal digits, which is all that group 1 can be: the
  number that the digits denote, as a double. (ECMAScript lets an implementation read
  the digits after the twentieth as zeros; V8, the engine of the host, rounds the exact
  value.)
\<close>

definition digit_value :: "jschar \<Rightarrow> int" where
  "digit_value c = uint c - 48"

definition decimal_value :: "jsstring \<Rightarrow> int" where
  "decimal_value ds = foldl (\<lambda>n c. 10 * n + digit_value c) 0 ds"

definition parseInt :: "jsstring \<Rightarrow> js_number" where
  "parseInt ds = to_double (decimal_value ds)"

text \<open>
  The arguments that \<open>ParserSelect.addDiagnosticsMessage\<close> is called with. \<open>exec\<close>
  turns its argument into a string, so a missing \<open>stacks[1]\<close> is matched as the text
  \<open>undefined\<close>.
\<close>

record diagnostics_message =
  diag_message :: "jsstring option"
  diag_filePath :: jsstring
  diag_line :: js_number

definition exec_argument :: "jsstring option \<Rightarrow> jsstring" where
  "exec_argument s = (case s of None \<Rightarrow> js ''undefined'' | Some t \<Rightarrow> t)"

definition customParserError :: "jsstring \<Rightarrow> jsstring \<Rightarrow> diagnostics_message" where
  "customParserError text parserFilePath =
     (let stacks = split_newline text;
          match = regex_exec (exec_argument (index stacks 1));
          line = (case match of None \<Rightarrow> Num 0 | Some d \<Rightarrow> js_sub (parseInt d) (Num 4))
      in \<lparr>diag_message = index stacks 0, diag_filePath = parserFilePath, diag_line = line\<rparr>)"

text \<open>The first line of a text, and what follows its first line feed, if any.\<close>

definition first_line :: "jsstring \<Rightarrow> jsstring" where
  "first_line text = takeWhile (\<lambda>c. c \<noteq> 0x0A) text"

definition second_line :: "jsstring \<Rightarrow> jsstring option" where
  "second_line text =
     (case dropWhile (\<lambda>c. c \<noteq> 0x0A) text of
        [] \<Rightarrow> None
      | _ # after \<Rightarrow> Some (first_line after))"

section \<open>The extension's commands and event handlers\<close>

subsection \<open>The command \<open>binary-file-viewer.open\<close>\<close>

text \<open>
  \<^verbatim>\<open>
    const filePath = uri.fsPath;
    const parser = ParserSelect.selectParserFile(filePath);
    if (!parser) {
        let msg = "Binary-File-Viewer: No parser available for '" + path.basename(filePath) + "'.\n";
        const parserPaths = ParserSelect.getTestedParserFilePaths();
        if (parserPaths.length > 0) {
            msg += "Tried parser(s): ";
            for (const parserPath of parserPaths)
                msg += '\n' + parserPath;
        }
        vscode.window.showErrorMessage(msg);
        return;
    }
    vscode.commands.executeCommand('vscode.openWith', uri, 'binary-file-viewer.viewer');
  \<close>
  \<open>path.basename\<close>, the selection and the list that
  \<open>ParserSelect.getTestedParserFilePaths()\<close> returns after it are parameters. Nothing
  catches an exception of the selection.
\<close>

definition quote :: jschar where
  "quote = 0x27"

definition line_feed :: jschar where
  "line_feed = 0x0A"

fun append_parser_paths :: "jsstring \<Rightarrow> jsstring list \<Rightarrow> jsstring" where
  "append_parser_paths msg [] = msg"
| "append_parser_paths msg (parserPath # parserPaths) =
     append_parser_paths (msg @ [line_feed] @ parserPath) parserPaths"

definition no_parser_message :: "jsstring \<Rightarrow> jsstring list \<Rightarrow> jsstring" where
  "no_parser_message base parserPaths =
     (let msg = js ''Binary-File-Viewer: No parser available for '' @ [quote] @ base
                  @ [quote] @ js ''.'' @ [line_feed]
      in if length parserPaths > 0
         then append_parser_paths (msg @ js ''Tried parser(s): '') parserPaths
         else msg)"

definition open_command ::
  "(jsstring \<Rightarrow> jsstring) \<Rightarrow> (jsstring \<Rightarrow> js_error + 'p option) \<Rightarrow> jsstring list \<Rightarrow> uri
     \<Rightarrow> js_error + host_call list" where
  "open_command basename selectParserFile testedParserFilePaths u =
     (let filePath = fsPath u
      in case selectParserFile filePath of
           Inl e \<Rightarrow> Inl e
         | Inr None \<Rightarrow>
             Inr [ShowErrorMessage (no_parser_message (basename filePath) testedParserFilePaths)]
         | Inr (Some parser) \<Rightarrow>
             Inr [ExecuteCommand (js ''vscode.openWith'') u (js ''binary-file-viewer.viewer'')])"

subsection \<open>The handler of file renames\<close>

text \<open>
  \<^verbatim>\<open>
    vscode.workspace.onDidRenameFiles((e: vscode.FileRenameEvent) => {
        const merged: vscode.Uri[] = [];
        for (const renamedFile of e.files) {
            merged.push(renamedFile.newUri);
            merged.push(renamedFile.oldUri);
        }
        ParserSelect.updateIfParserFile(merged);
    });
  \<close>
\<close>

record renamed_file =
  oldUri :: uri
  newUri :: uri

fun merge_renamed :: "uri list \<Rightarrow> renamed_file list \<Rightarrow> uri list" where
  "merge_renamed merged [] = merged"
| "merge_renamed merged (renamedFile # files) =
     merge_renamed ((merged @ [newUri renamedFile]) @ [oldUri renamedFile]) files"

definition onDidRenameFiles :: "renamed_file list \<Rightarrow> host_call list" where
  "onDidRenameFiles files = [UpdateIfParserFile (merge_renamed [] files)]"

subsection \<open>\<open>getParserPaths\<close>\<close>

text \<open>
  \<^verbatim>\<open>
    const correctFolders: string[] = [];
    for (const folder of parserFolders) {
        const exists = fs.existsSync(folder);
        if (!exists) {
            vscode.window.showErrorMessage("Settings: The path '" + folder + "' does not exist.");
            continue;
        }
        const isDir = fs.lstatSync(folder).isDirectory();
        if (!isDir) {
            vscode.window.showErrorMessage("Settings: The path '" + folder + "' is not a directory.");
            continue;
        }
        correctFolders.push(folder);
    }
    return correctFolders;
  \<close>
  The disk is what the two file-system calls report of it: \<open>existsSync\<close>, and
  \<open>lstatSync(...).isDirectory()\<close>, which is only asked of a path that exists. The
  function returns the folders kept and, beside them, the error messages shown.
\<close>

record file_system =
  existsSync :: "jsstring \<Rightarrow> bool"
  lstat_isDirectory :: "jsstring \<Rightarrow> bool"

definition does_not_exist_message :: "jsstring \<Rightarrow> jsstring" where
  "does_not_exist_message folder =
     js ''Settings: The path '' @ [quote] @ folder @ [quote] @ js '' does not exist.''"

definition not_a_directory_message :: "jsstring \<Rightarrow> jsstring" where
  "not_a_directory_message folder =
     js ''Settings: The path '' @ [quote] @ folder @ [quote] @ js '' is not a directory.''"

fun getParserPaths_loop ::
  "file_system \<Rightarrow> jsstring list \<Rightarrow> jsstring list \<Rightarrow> host_call list
     \<Rightarrow> jsstring list \<times> host_call list" where
  "getParserPaths_loop fs [] correctFolders shown = (correctFolders, shown)"
| "getParserPaths_loop fs (folder # parserFolders) correctFolders shown =
     (if \<not> existsSync fs folder
      then getParserPaths_loop fs parserFolders correctFolders
             (shown @ [ShowErrorMessage (does_not_exist_message folder)])
      else if \<not> lstat_isDirectory fs folder
      then getParserPaths_loop fs parserFolders correctFolders
             (shown @ [ShowErrorMessage (not_a_directory_message folder)])
      else getParserPaths_loop fs parserFolders (correctFolders @ [folder]) shown)"

definition getParserPaths :: "file_system \<Rightarrow> jsstring list \<Rightarrow> jsstring list \<times> host_call list" where
  "getParserPaths fs parserFolders = getParserPaths_loop fs parserFolders [] []"

text \<open>
  What the claims say of \<open>getParserPaths\<close>: an entry is kept when it exists on disk
  and is a directory, and an entry that is not kept has one error message.
\<close>

definition is_directory_on_disk :: "file_system \<Rightarrow> jsstring \<Rightarrow> bool" where
  "is_directory_on_disk fs folder = (existsSync fs folder \<and> lstat_isDirectory fs folder)"

definition settings_error :: "file_system \<Rightarrow> jsstring \<Rightarrow> host_call" where
  "settings_error fs folder =
     ShowErrorMessage (if existsSync fs folder then not_a_directory_message folder
                       else does_not_exist_message folder)"

section \<open>Proofs: JavaScript numbers\<close>

text \<open>Within \<open>2^53\<close> the arithmetic of doubles is the arithmetic of integers.\<close>

lemma to_double_exact: "\<bar>x\<bar> \<le> 2 ^ 53 \<Longrightarrow> to_double x = Num x"
proof -
  assume a: "\<bar>x\<bar> \<le> 2 ^ 53"
  have "(2::int) ^ 53 < 2 ^ 1024" by simp
  with a have "x < 2 ^ 1024" "- (2 ^ 1024) < x" by linarith+
  with a show ?thesis by (simp add: to_double_def round_to_double_def)
qed

lemma to_double_pow256: "k \<le> 8 \<Longrightarrow> to_double (256 ^ k) = Num (256 ^ k)"
proof -
  assume "k \<le> 8"
  then consider "k \<le> 6" | "k = 7" | "k = 8" by linarith
  then show ?thesis
  proof cases
    case 1
    then have "(256::int) ^ k \<le> 256 ^ 6" by (intro power_increasing) simp_all
    then have "\<bar>(256::int) ^ k\<bar> \<le> 2 ^ 53" by simp
    then show ?thesis by (rule to_double_exact)
  next
    case 2
    have "to_double (256 ^ 7) = Num (256 ^ 7)" by code_simp
    with 2 show ?thesis by simp
  next
    case 3
    have "to_double (256 ^ 8) = Num (256 ^ 8)" by code_simp
    with 3 show ?thesis by simp
  qed
qed

lemma js_arith_exact:
  "\<bar>a + b\<bar> \<le> 2 ^ 53 \<Longrightarrow> js_add (Num a) (Num b) = Num (a + b)"
  "\<bar>a - b\<bar> \<le> 2 ^ 53 \<Longrightarrow> js_sub (Num a) (Num b) = Num (a - b)"
  "\<bar>a * b\<bar> \<le> 2 ^ 53 \<Longrightarrow> js_mul (Num a) (Num b) = Num (a * b)"
  by (simp_all add: js_sub_def to_double_exact)

section \<open>Proofs: numeric decoding\<close>

subsection \<open>Properties of the accumulation loop\<close>

lemma complement_term_bounds:
  "0 \<le> 255 - uint x" "255 - uint x \<le> 255" for x :: byte
proof -
  have "uint x < 256" using uint_lt2p [of x] by simp
  then show "0 \<le> 255 - uint x" by simp
  show "255 - uint x \<le> 255" by simp
qed

lemma complement_term_abs: "\<bar>255 - uint x\<bar> \<le> 2 ^ 53" for x :: byte
proof -
  have "(255::int) \<le> 2 ^ 53" by simp
  with complement_term_bounds [of x] show ?thesis by linarith
qed

lemma complement_loop_exact:
  fixes dataBuffer :: "byte list" and lastOffset :: nat
  defines "c \<equiv> \<lambda>k. 256 ^ k * (255 - uint (dataBuffer ! (lastOffset + k)))"
  assumes fit: "lastOffset + lastSize \<le> length dataBuffer"
    and width: "lastSize \<le> 8"
    and total: "(\<Sum>k<lastSize. c k) < 2 ^ 53"
    and i: "i \<le> lastSize"
  shows "complement_loop dataBuffer lastOffset lastSize i (Num (\<Sum>k<i. c k)) (Num (256 ^ i))
           = Num (\<Sum>k<lastSize. c k)"
  using i
proof (induction "lastSize - i" arbitrary: i)
  case 0
  then have "i = lastSize" by simp
  then show ?case by (simp add: complement_loop.simps)
next
  case (Suc d)
  then have lt: "i < lastSize" by simp
  have nonneg: "0 \<le> c k" for k
    unfolding c_def using complement_term_bounds(1) by simp
  have part: "(\<Sum>k<j. c k) \<le> (\<Sum>k<lastSize. c k)" if "j \<le> lastSize" for j
    using that nonneg by (intro sum_mono2) auto
  have s0: "0 \<le> (\<Sum>k<j. c k)" for j
    using nonneg by (intro sum_nonneg) simp
  have next_sum: "(\<Sum>k<i. c k) + c i = (\<Sum>k<Suc i. c k)" by simp
  have ci: "c i \<le> (\<Sum>k<Suc i. c k)" using s0 [of i] by simp
  have b1: "\<bar>c i\<bar> \<le> 2 ^ 53"
    using nonneg [of i] ci part [of "Suc i"] lt total by simp
  have b2: "\<bar>(\<Sum>k<i. c k) + c i\<bar> \<le> 2 ^ 53"
    unfolding next_sum using s0 [of "Suc i"] part [of "Suc i"] lt total by simp
  have el: "element dataBuffer (lastOffset + i) = Num (uint (dataBuffer ! (lastOffset + i)))"
    using lt fit by (simp add: element_def)
  have sub: "js_sub (Num 255) (element dataBuffer (lastOffset + i))
      = Num (255 - uint (dataBuffer ! (lastOffset + i)))"
    unfolding el using complement_term_abs by (rule js_arith_exact(2))
  have mul: "js_mul (Num (256 ^ i)) (Num (255 - uint (dataBuffer ! (lastOffset + i)))) = Num (c i)"
    using b1 unfolding c_def by (rule js_arith_exact(3))
  have add: "js_add (Num (\<Sum>k<i. c k)) (Num (c i)) = Num (\<Sum>k<Suc i. c k)"
    using js_arith_exact(1) [OF b2] by (simp only: next_sum)
  have fac: "js_mul (Num (256 ^ i)) (Num 256) = Num (256 ^ Suc i)"
  proof -
    have "to_double (256 ^ Suc i) = Num (256 ^ Suc i)"
      using lt width by (intro to_double_pow256) simp
    then show ?thesis by (simp add: mult.commute)
  qed
  have step: "complement_loop dataBuffer lastOffset lastSize i (Num (\<Sum>k<i. c k)) (Num (256 ^ i))
      = complement_loop dataBuffer lastOffset lastSize (Suc i) (Num (\<Sum>k<Suc i. c k))
          (Num (256 ^ Suc i))"
    using lt by (subst complement_loop.simps) (simp only: sub mul add fac if_True Suc_eq_plus1)
  have "d = lastSize - Suc i" using Suc.hyps(2) by simp
  moreover have "Suc i \<le> lastSize" using lt by simp
  ultimately have "complement_loop dataBuffer lastOffset lastSize (Suc i) (Num (\<Sum>k<Suc i. c k))
      (Num (256 ^ Suc i)) = Num (\<Sum>k<lastSize. c k)"
    by (rule Suc.hyps(1))
  with step show ?case by simp
qed

lemma sum_complement_bytes:
  "(\<Sum>k<n. 256 ^ k * (255 - f k)) = 256 ^ n - 1 - (\<Sum>k<n. 256 ^ k * f k)" for f :: "nat \<Rightarrow> int"
  by (induction n) (simp_all add: algebra_simps)

lemma unsigned_value_nonneg: "0 \<le> (\<Sum>i<n. 256 ^ i * uint (b ! i))" for b :: "byte list"
  by (intro sum_nonneg) simp

text \<open>
  Claim C3, as amended. For every byte buffer \<open>b\<close> and every width \<open>n\<close> from 1 to 8
  within it for which the magnitude \<open>2^(8n)\<close> minus the unsigned base-256 value of the
  bytes is at most \<open>2^53\<close> (every buffer at the widths up to 6; at the widths 7 and 8
  the buffers whose bytes complement to a small number, as those of \<open>activate\<close> do),
  the accumulation that complements each byte, sums the complements with the factors
  \<open>256^i\<close> from the lowest-order byte on and adds one, yields exactly that magnitude.
\<close>

theorem complement_accumulate_exact_in_range:
  fixes b :: "byte list"
  assumes "1 \<le> n" and "n \<le> 8" and "n \<le> length b"
    and "n \<le> 6 \<or> 2 ^ (8 * n) - (\<Sum>i<n. 256 ^ i * uint (b ! i)) \<le> 2 ^ 53"
  shows "complement_accumulate b 0 n = Num (2 ^ (8 * n) - (\<Sum>i<n. 256 ^ i * uint (b ! i)))"
proof -
  let ?U = "\<Sum>i<n. 256 ^ i * uint (b ! i)"
  let ?S = "\<Sum>k<n. 256 ^ k * (255 - uint (b ! (0 + k)))"
  have p: "(256::int) ^ n = 2 ^ (8 * n)" by (simp add: power_mult)
  have S: "?S = 2 ^ (8 * n) - 1 - ?U"
    using sum_complement_bytes [where n = n and f = "\<lambda>k. uint (b ! k)"] by (simp add: p)
  have m: "2 ^ (8 * n) - ?U \<le> 2 ^ 53"
  proof (cases "n \<le> 6")
    case True
    then have "(256::int) ^ n \<le> 256 ^ 6" by (intro power_increasing) simp_all
    then have "(2::int) ^ (8 * n) \<le> 2 ^ 53" unfolding p [symmetric] by simp
    with unsigned_value_nonneg [where n = n and b = b] show ?thesis by linarith
  next
    case False
    with assms(4) show ?thesis by simp
  qed
  have total: "?S < 2 ^ 53" using m S by simp
  have "complement_loop b 0 n 0 (Num (\<Sum>k<0. 256 ^ k * (255 - uint (b ! (0 + k))))) (Num (256 ^ 0))
      = Num ?S"
    using assms(2,3) total by (intro complement_loop_exact) simp_all
  then have loop: "complement_loop b 0 n 0 (Num 0) (Num 1) = Num ?S" by simp
  have "0 \<le> ?S"
    using complement_term_bounds(1) by (intro sum_nonneg) simp
  with total have "\<bar>?S + 1\<bar> \<le> 2 ^ 53" by simp
  then have "js_add (Num ?S) (Num 1) = Num (?S + 1)" by (rule js_arith_exact(1))
  with loop S show ?thesis by (simp add: complement_accumulate_def)
qed

theorem complement_accumulate_witness:
  "(1::nat) \<le> 8 \<and> (8::nat) \<le> 8
   \<and> (8::nat) \<le> length [0xFD, 0xFE, 0xFF, 0xFF, 0xFF, 0xFF, 0xFF, 0xFF :: byte]
   \<and> (2::int) ^ (8 * 8) - 18446744073709551357 \<le> 2 ^ 53
   \<and> activate_value = Num 259
   \<and> complement_accumulate [0xFD, 0xFF, 0xFF, 0xFF, 0xFF, 0xFF] 0 6 = Num 3"
proof -
  let ?b = "[0xFD, 0xFE, 0xFF, 0xFF, 0xFF, 0xFF, 0xFF, 0xFF] :: byte list"
  let ?c = "[0xFD, 0xFF, 0xFF, 0xFF, 0xFF, 0xFF] :: byte list"
  have u: "(\<Sum>i<8::nat. 256 ^ i * uint (?b ! i)) = 18446744073709551357"
    by (simp add: lessThan_nat_numeral lessThan_Suc)
  have h: "(1::nat) \<le> 8" "(8::nat) \<le> 8" "(8::nat) \<le> length ?b"
    "(8::nat) \<le> 6 \<or> 2 ^ (8 * 8) - (\<Sum>i<8::nat. 256 ^ i * uint (?b ! i)) \<le> 2 ^ 53"
    by (simp_all add: u)
  from complement_accumulate_exact_in_range [OF h] u
  have a: "activate_value = Num 259" by (simp add: activate_value_def)
  have v: "(\<Sum>i<6::nat. 256 ^ i * uint (?c ! i)) = 281474976710653"
    by (simp add: lessThan_nat_numeral lessThan_Suc)
  have g: "(1::nat) \<le> 6" "(6::nat) \<le> 8" "(6::nat) \<le> length ?c"
    "(6::nat) \<le> 6 \<or> 2 ^ (8 * 6) - (\<Sum>i<6::nat. 256 ^ i * uint (?c ! i)) \<le> 2 ^ 53"
    by simp_all
  from complement_accumulate_exact_in_range [OF g] v
  have c: "complement_accumulate ?c 0 6 = Num 3" by simp
  from a c show ?thesis by simp
qed

text \<open>
  Claim C3 as worded, for every buffer at every width up to 8, fails in the doubles of
  the code. At width 8 the bytes 03 00 00 00 00 00 00 00, whose unsigned value is 3,
  give \<open>2^64\<close> and not \<open>2^64 - 3\<close>: the partial sum \<open>2^56 - 4\<close> is no double and
  rounds to \<open>2^56\<close>.
\<close>

theorem complement_accumulate_counterexample:
  "complement_accumulate [0x03, 0x00, 0x00, 0x00, 0x00, 0x00, 0x00, 0x00] 0 8
     = Num 18446744073709551616
   \<and> complement_accumulate [0x03, 0x00, 0x00, 0x00, 0x00, 0x00, 0x00, 0x00] 0 8
     \<noteq> Num (2 ^ (8 * 8) - 3)"
proof -
  have "complement_accumulate [0x03, 0x00, 0x00, 0x00, 0x00, 0x00, 0x00, 0x00] 0 8
     = Num 18446744073709551616"
    by code_simp
  then show ?thesis by simp
qed

text \<open>The loop on further buffers: rounding at width 7, and a read beyond the buffer.\<close>

lemma complement_accumulate_examples:
  "complement_accumulate [0x01, 0x00, 0x00, 0x00, 0x00, 0x00, 0x00] 0 7 = Num (2 ^ 56)"
  "complement_accumulate [0x01, 0x00, 0x00, 0x00, 0x00, 0x00, 0x00, 0x80] 0 8 = Num (2 ^ 63)"
  "complement_accumulate [0x01, 0x00] 0 3 = NaN"
  by code_simp+

text \<open>The rounding of integers to doubles at the edges of the exact range.\<close>

lemma to_double_examples:
  "to_double 9007199254740993 = Num 9007199254740992"
  "to_double 9007199254740995 = Num 9007199254740996"
  "to_double (2 ^ 56 - 4) = Num (2 ^ 56)"
  "to_double (2 ^ 1024 - 2 ^ 970 - 1) = Num (2 ^ 1024 - 2 ^ 971)"
  "to_double (2 ^ 1024 - 2 ^ 970) = PosInfinity"
  by code_simp+

subsection \<open>The round trip of \<open>readInteger\<close>\<close>

lemma base256_sum_le_value: "base256_sum val factor bs = val + factor * le_value bs"
  by (induction bs arbitrary: val factor) (simp_all add: algebra_simps)

lemma length_encode_le [simp]: "length (encode_le n v) = n"
  by (induction n arbitrary: v) simp_all

lemma uint_byte_of_int: "uint (word_of_int v :: byte) = v mod 256"
  by (simp add: uint_word_of_int)

lemma le_value_encode_le: "le_value (encode_le n v) = v mod 256 ^ n"
proof (induction n arbitrary: v)
  case 0 show ?case by simp
next
  case (Suc n)
  have "v mod (256 * 256 ^ n) = 256 * (v div 256 mod 256 ^ n) + v mod 256"
    by (rule zmod_zmult2_eq) simp
  with Suc show ?case by (simp add: uint_byte_of_int)
qed

lemma uint_complement: "uint (b XOR 0xFF) = 255 - uint b" for b :: byte
proof -
  have e: "(0xFF :: byte) = - 1" by simp
  have "b XOR 0xFF = NOT b" by (subst e) simp
  moreover have "uint (NOT b) = (- uint b - 1) mod 256"
    by (simp add: unsigned_not_eq take_bit_eq_mod not_int_def)
  moreover have "(- uint b - 1) mod 256 = 255 - uint b"
  proof -
    have "uint b < 256" using uint_lt2p [of b] by simp
    moreover have "0 \<le> uint b" by simp
    ultimately have "0 \<le> 255 - uint b" "255 - uint b < 256" by linarith+
    then have "(255 - uint b) mod 256 = 255 - uint b" by (rule mod_pos_pos_trivial)
    moreover have "- uint b - 1 = (255 - uint b) + (- 1) * 256" by simp
    ultimately show ?thesis by (metis mod_mult_self1)
  qed
  ultimately show ?thesis by simp
qed

lemma le_value_complement:
  "le_value (map (\<lambda>b. b XOR 0xFF) bs) = 256 ^ length bs - 1 - le_value bs"
  by (induction bs) (simp_all add: uint_complement algebra_simps)

lemma last_encode_le: "last (encode_le (Suc n) v) = word_of_int (v div 256 ^ n)"
proof (induction n arbitrary: v)
  case 0 show ?case by simp
next
  case (Suc n)
  have "last (encode_le (Suc (Suc n)) v) = last (encode_le (Suc n) (v div 256))"
    by simp
  also have "\<dots> = word_of_int (v div 256 div 256 ^ n)" by (rule Suc)
  finally show ?case by (simp add: zdiv_zmult2_eq)
qed

lemma sign_bit_top_byte:
  assumes "- 128 \<le> x" "x < 128"
  shows "bit (word_of_int x :: byte) 7 \<longleftrightarrow> x < 0"
proof -
  have "bit (word_of_int x :: byte) 7 \<longleftrightarrow> bit x 7"
    by (simp add: bit_word_of_int_iff)
  also have "\<dots> \<longleftrightarrow> odd (x div 128)"
    by (simp add: bit_iff_odd)
  also have "\<dots> \<longleftrightarrow> x < 0"
  proof (cases "x < 0")
    case True
    then have "x div 128 = - 1" using assms by (simp add: div_pos_neg_trivial int_div_neg_eq)
    with True show ?thesis by simp
  next
    case False
    then have "x div 128 = 0" using assms by simp
    with False show ?thesis by simp
  qed
  finally show ?thesis .
qed


lemma top_byte_range:
  fixes v :: int
  assumes "- (2 ^ (8 * Suc m - 1)) \<le> v" "v < 2 ^ (8 * Suc m - 1)"
  shows "- 128 \<le> v div 256 ^ m" "v div 256 ^ m < 128" "v div 256 ^ m < 0 \<longleftrightarrow> v < 0"
proof -
  have p: "(2::int) ^ (8 * Suc m - 1) = 128 * 256 ^ m"
  proof -
    have "8 * Suc m - 1 = 7 + 8 * m" by simp
    then show ?thesis by (simp add: power_add power_mult)
  qed
  have c: "(0::int) < 256 ^ m" by simp
  show "- 128 \<le> v div 256 ^ m"
  proof -
    have "(- 128) * 256 ^ m \<le> v" using assms(1) unfolding p by simp
    then have "((- 128) * 256 ^ m) div 256 ^ m \<le> v div 256 ^ m"
      using c by (rule zdiv_mono1)
    moreover have "((- 128) * 256 ^ m) div 256 ^ m = (- 128 :: int)"
      using c by (intro nonzero_mult_div_cancel_right) simp
    ultimately show ?thesis by (simp only:)
  qed
  show "v div 256 ^ m < 128"
  proof -
    have "256 ^ m * (v div 256 ^ m) + v mod 256 ^ m = v" by (rule mult_div_mod_eq)
    moreover have "0 \<le> v mod 256 ^ m" using c by simp
    ultimately have "256 ^ m * (v div 256 ^ m) < 256 ^ m * 128"
      using assms(2) unfolding p by linarith
    with c show ?thesis by (simp only: mult_less_cancel_left_pos)
  qed
  show "v div 256 ^ m < 0 \<longleftrightarrow> v < 0"
    using c by (rule pos_imp_zdiv_neg_iff)
qed

lemma mod_in_range:
  fixes v :: int
  shows "0 \<le> v \<Longrightarrow> v < c \<Longrightarrow> v mod c = v"
    and "- c \<le> v \<Longrightarrow> v < 0 \<Longrightarrow> v mod c = v + c"
proof -
  show "0 \<le> v \<Longrightarrow> v < c \<Longrightarrow> v mod c = v" by simp
  assume a: "- c \<le> v" "v < 0"
  then have "0 \<le> v + c" "v + c < c" by simp_all
  then have "(v + c) mod c = v + c" by (rule mod_pos_pos_trivial)
  then show "v mod c = v + c" by simp
qed

lemma readInteger_window:
  "readInteger (pre @ bs @ post) (int (length pre)) (length bs) sg le =
     (let ordered = (if le then bs else rev bs)
      in if sg \<and> ordered \<noteq> [] \<and> bit (last ordered) 7
         then Inr (- (base256_sum 0 1 (map (\<lambda>b. b XOR 0xFF) ordered) + 1))
         else Inr (base256_sum 0 1 ordered))"
  by (simp add: readInteger_def Let_def)

lemma ordered_reference_encode:
  "(if le then reference_encode n le v else rev (reference_encode n le v)) = encode_le n v"
  by (simp add: reference_encode_def)

lemma length_reference_encode: "length (reference_encode n le v) = n"
  by (simp add: reference_encode_def)

lemma readInteger_unsigned_roundtrip:
  assumes "0 \<le> v" "v < 2 ^ (8 * n)"
  shows "readInteger (pre @ reference_encode n le v @ post) (int (length pre)) n False le = Inr v"
proof -
  have "(256::int) ^ n = 2 ^ (8 * n)" by (simp add: power_mult)
  with assms have "v mod 256 ^ n = v" by simp
  then have "base256_sum 0 1 (encode_le n v) = v"
    by (simp add: base256_sum_le_value le_value_encode_le)
  moreover have "readInteger (pre @ reference_encode n le v @ post) (int (length pre))
      (length (reference_encode n le v)) False le = Inr (base256_sum 0 1 (encode_le n v))"
    unfolding readInteger_window by (simp add: ordered_reference_encode)
  ultimately show ?thesis by (simp add: length_reference_encode)
qed

lemma readInteger_signed_roundtrip:
  assumes "1 \<le> n" "- (2 ^ (8 * n - 1)) \<le> v" "v < 2 ^ (8 * n - 1)"
  shows "readInteger (pre @ reference_encode n le v @ post) (int (length pre)) n True le = Inr v"
proof -
  from assms(1) obtain m where n: "n = Suc m" by (cases n) simp_all
  have pw: "(256::int) ^ n = 2 * 2 ^ (8 * n - 1)"
  proof -
    have "8 * n = Suc (8 * n - 1)" using assms(1) by simp
    then have "(2::int) ^ (8 * n) = 2 * 2 ^ (8 * n - 1)" by (metis power_Suc)
    then show ?thesis by (simp add: power_mult)
  qed
  have ne: "encode_le n v \<noteq> []" using n by simp
  have top: "last (encode_le n v) = word_of_int (v div 256 ^ m)"
    unfolding n by (rule last_encode_le)
  have rng: "- 128 \<le> v div 256 ^ m" "v div 256 ^ m < 128" "v div 256 ^ m < 0 \<longleftrightarrow> v < 0"
    using top_byte_range [of m v] assms(2,3) unfolding n by simp_all
  have sign: "bit (last (encode_le n v)) 7 \<longleftrightarrow> v < 0"
    unfolding top using sign_bit_top_byte [OF rng(1,2)] rng(3) by simp
  have win: "readInteger (pre @ reference_encode n le v @ post) (int (length pre))
      (length (reference_encode n le v)) True le =
      (if v < 0 then Inr (- (base256_sum 0 1 (map (\<lambda>b. b XOR 0xFF) (encode_le n v)) + 1))
       else Inr (base256_sum 0 1 (encode_le n v)))"
    unfolding readInteger_window by (simp add: ordered_reference_encode ne sign)
  show ?thesis
  proof (cases "v < 0")
    case True
    then have "v mod 256 ^ n = v + 256 ^ n"
      using assms(2) pw by (intro mod_in_range(2)) simp_all
    then have "- (base256_sum 0 1 (map (\<lambda>b. b XOR 0xFF) (encode_le n v)) + 1) = v"
      by (simp add: base256_sum_le_value le_value_complement le_value_encode_le)
    with win True show ?thesis by (simp add: length_reference_encode)
  next
    case False
    then have "v mod 256 ^ n = v"
      using assms(3) pw by (intro mod_in_range(1)) simp_all
    then have "base256_sum 0 1 (encode_le n v) = v"
      by (simp add: base256_sum_le_value le_value_encode_le)
    with win False show ?thesis by (simp add: length_reference_encode)
  qed
qed


text \<open>
  Claim C1, as amended. For every byte width from 1 to 8, both endiannesses and any
  position in a buffer, \<open>readInteger\<close> decodes exactly the value that the reference
  encoder wrote, unsigned for every value below \<open>2^(8n)\<close> and signed for every value
  of the two's-complement range, with no rounding above \<open>2^53 - 1\<close>. The 8-byte
  little-endian buffer FD FE FF FF FF FF FF FF decodes unsigned to 18446744073709551357
  and signed to -259; it is the buffer FD FF FF FF FF FF FF FF that decodes to
  18446744073709551613 and to -3.
\<close>

theorem readInteger_roundtrip:
  "(\<forall>n le v pre post. 1 \<le> n \<and> n \<le> 8 \<and> 0 \<le> v \<and> v < 2 ^ (8 * n) \<longrightarrow>
      readInteger (pre @ reference_encode n le v @ post) (int (length pre)) n False le = Inr v)
   \<and> (\<forall>n le v pre post. 1 \<le> n \<and> n \<le> 8 \<and> - (2 ^ (8 * n - 1)) \<le> v \<and> v < 2 ^ (8 * n - 1) \<longrightarrow>
      readInteger (pre @ reference_encode n le v @ post) (int (length pre)) n True le = Inr v)
   \<and> readInteger [0xFD, 0xFE, 0xFF, 0xFF, 0xFF, 0xFF, 0xFF, 0xFF] 0 8 False True
       = Inr 18446744073709551357
   \<and> readInteger [0xFD, 0xFE, 0xFF, 0xFF, 0xFF, 0xFF, 0xFF, 0xFF] 0 8 True True = Inr (- 259)
   \<and> readInteger [0xFD, 0xFF, 0xFF, 0xFF, 0xFF, 0xFF, 0xFF, 0xFF] 0 8 False True
       = Inr 18446744073709551613
   \<and> readInteger [0xFD, 0xFF, 0xFF, 0xFF, 0xFF, 0xFF, 0xFF, 0xFF] 0 8 True True = Inr (- 3)"
proof (intro conjI allI impI)
  fix n :: nat and le :: bool and v :: int and pre post :: "byte list"
  assume "1 \<le> n \<and> n \<le> 8 \<and> 0 \<le> v \<and> v < 2 ^ (8 * n)"
  then show "readInteger (pre @ reference_encode n le v @ post) (int (length pre)) n False le
      = Inr v"
    by (simp add: readInteger_unsigned_roundtrip)
next
  fix n :: nat and le :: bool and v :: int and pre post :: "byte list"
  assume "1 \<le> n \<and> n \<le> 8 \<and> - (2 ^ (8 * n - 1)) \<le> v \<and> v < 2 ^ (8 * n - 1)"
  then show "readInteger (pre @ reference_encode n le v @ post) (int (length pre)) n True le
      = Inr v"
    by (simp add: readInteger_signed_roundtrip)
qed (simp_all add: readInteger_def)

theorem readInteger_roundtrip_witness:
  "reference_encode 8 True 18446744073709551613 = [0xFD, 0xFF, 0xFF, 0xFF, 0xFF, 0xFF, 0xFF, 0xFF]
   \<and> readInteger ([] @ reference_encode 8 True 18446744073709551613 @ []) (int (length ([] :: byte list)))
         8 False True = Inr 18446744073709551613
   \<and> reference_encode 8 False (- 3) = [0xFF, 0xFF, 0xFF, 0xFF, 0xFF, 0xFF, 0xFF, 0xFD]
   \<and> readInteger ([0x2A] @ reference_encode 8 False (- 3) @ [0x2A]) (int (length [0x2A :: byte]))
         8 True False = Inr (- 3)"
proof -
  have u: "(1::nat) \<le> 8 \<and> (8::nat) \<le> 8 \<and> (0::int) \<le> 18446744073709551613
      \<and> (18446744073709551613::int) < 2 ^ (8 * 8)"
    by simp
  have s: "(1::nat) \<le> 8 \<and> (8::nat) \<le> 8 \<and> - (2 ^ (8 * 8 - 1)) \<le> (- 3 :: int)
      \<and> (- 3 :: int) < 2 ^ (8 * 8 - 1)"
    by simp
  have e1: "reference_encode 8 True 18446744073709551613
      = [0xFD, 0xFF, 0xFF, 0xFF, 0xFF, 0xFF, 0xFF, 0xFF]"
    by code_simp
  have e2: "reference_encode 8 False (- 3) = [0xFF, 0xFF, 0xFF, 0xFF, 0xFF, 0xFF, 0xFF, 0xFD]"
    by code_simp
  from readInteger_roundtrip u
  have r1: "readInteger ([] @ reference_encode 8 True 18446744073709551613 @ [])
      (int (length ([] :: byte list))) 8 False True = Inr 18446744073709551613"
    by blast
  from readInteger_roundtrip s
  have r2: "readInteger ([0x2A] @ reference_encode 8 False (- 3) @ [0x2A])
      (int (length [0x2A :: byte])) 8 True False = Inr (- 3)"
    by blast
  from e1 e2 r1 r2 show ?thesis by (intro conjI)
qed

text \<open>
  Claim C1 as the specification words it fails: the buffer FD FE FF FF FF FF FF FF
  decodes neither to 18446744073709551613 nor to -3.
\<close>

theorem readInteger_example_counterexample:
  "readInteger [0xFD, 0xFE, 0xFF, 0xFF, 0xFF, 0xFF, 0xFF, 0xFF] 0 8 False True
     \<noteq> Inr 18446744073709551613
   \<and> readInteger [0xFD, 0xFE, 0xFF, 0xFF, 0xFF, 0xFF, 0xFF, 0xFF] 0 8 True True \<noteq> Inr (- 3)"
  by (simp add: readInteger_def)

section \<open>Proofs: the diagnostics of a failed parser\<close>

lemma split_newline_unfold:
  "split_newline text =
     first_line text #
       (case dropWhile (\<lambda>c. c \<noteq> 0x0A) text of [] \<Rightarrow> [] | _ # after \<Rightarrow> split_newline after)"
  by (induction "text") (simp_all add: first_line_def)

lemma index_split_newline_0: "index (split_newline text) 0 = Some (first_line text)"
  by (subst split_newline_unfold) (simp add: index_def)

lemma index_split_newline_1: "index (split_newline text) (Suc 0) = second_line text"
proof (cases "dropWhile (\<lambda>c. c \<noteq> 0x0A) text")
  case Nil
  have "split_newline text = [first_line text]"
    by (subst split_newline_unfold) (simp only: Nil list.case)
  moreover have "second_line text = None"
    unfolding second_line_def by (simp only: Nil list.case)
  ultimately show ?thesis by (simp add: index_def)
next
  case (Cons c after)
  have "split_newline text = first_line text # split_newline after"
    by (subst split_newline_unfold) (simp add: Cons)
  moreover have "\<exists>rest. split_newline after = first_line after # rest"
    by (subst split_newline_unfold) simp
  ultimately show ?thesis
    by (auto simp: index_def second_line_def Cons)
qed

lemma customParserError_unfold:
  "customParserError text fp =
     \<lparr>diag_message = Some (first_line text), diag_filePath = fp,
      diag_line = (case regex_exec (exec_argument (second_line text)) of
                     None \<Rightarrow> Num 0 | Some d \<Rightarrow> js_sub (parseInt d) (Num 4))\<rparr>"
  by (simp add: customParserError_def Let_def index_split_newline_0 index_split_newline_1)

lemma takeWhile_empty_iff: "takeWhile P xs = [] \<longleftrightarrow> (xs = [] \<or> \<not> P (hd xs))"
  by (cases xs) simp_all

lemma match_tail_None_iff: "match_tail s = None \<longleftrightarrow> \<not> starts_with_marker s"
proof (cases s rule: match_tail.cases)
  case (1 a b rest)
  then show ?thesis
    by (cases rest) (auto simp: starts_with_marker_def)
qed (simp_all add: starts_with_marker_def)

lemma match_here_None_tail: "match_here s = None \<Longrightarrow> match_tail s = None"
  by (cases s) (auto split: if_splits option.splits)

lemma regex_exec_Cons_None:
  "regex_exec (c # cs) = None \<longleftrightarrow> match_here (c # cs) = None \<and> regex_exec cs = None"
  by (cases "match_here (c # cs)") (simp_all only: regex_exec.simps option.case, simp_all)

lemma regex_exec_None_suffix:
  "regex_exec s = None \<Longrightarrow> s = pre @ post \<Longrightarrow> match_tail post = None"
proof (induction s arbitrary: pre)
  case Nil
  then show ?case by simp
next
  case (Cons c cs)
  from Cons.prems(1) have h: "match_here (c # cs) = None" and r: "regex_exec cs = None"
    by (simp_all only: regex_exec_Cons_None)
  show ?case
  proof (cases pre)
    case Nil
    with Cons.prems(2) h show ?thesis by (simp add: match_here_None_tail)
  next
    case (Cons p pre')
    with Cons.prems(2) have "cs = pre' @ post" by simp
    with r show ?thesis by (rule Cons.IH)
  qed
qed

lemma match_here_None_if:
  "(\<And>pre post. s = pre @ post \<Longrightarrow> match_tail post = None) \<Longrightarrow> match_here s = None"
proof (induction s)
  case Nil
  then show ?case by simp
next
  case (Cons c cs)
  have t: "match_tail (c # cs) = None" using Cons.prems [of "[]" "c # cs"] by simp
  have "match_here cs = None"
  proof (rule Cons.IH)
    fix pre post assume "cs = pre @ post"
    then have "c # cs = (c # pre) @ post" by simp
    then show "match_tail post = None" by (rule Cons.prems)
  qed
  with t show ?case by simp
qed

lemma regex_exec_None_if:
  "(\<And>pre post. s = pre @ post \<Longrightarrow> match_tail post = None) \<Longrightarrow> regex_exec s = None"
proof (induction s)
  case Nil
  then show ?case by simp
next
  case (Cons c cs)
  have h: "match_here (c # cs) = None" using Cons.prems by (rule match_here_None_if)
  have "regex_exec cs = None"
  proof (rule Cons.IH)
    fix pre post assume "cs = pre @ post"
    then have "c # cs = (c # pre) @ post" by simp
    then show "match_tail post = None" by (rule Cons.prems)
  qed
  with h show ?case by (simp only: regex_exec_Cons_None)
qed

lemma regex_exec_None_iff:
  "regex_exec s = None \<longleftrightarrow>
     \<not> (\<exists>pre d post. s = pre @ [0x3E, 0x3A, d] @ post \<and> is_digit d)"
proof
  assume n: "regex_exec s = None"
  show "\<not> (\<exists>pre d post. s = pre @ [0x3E, 0x3A, d] @ post \<and> is_digit d)"
  proof
    assume "\<exists>pre d post. s = pre @ [0x3E, 0x3A, d] @ post \<and> is_digit d"
    then obtain pre d post where s: "s = pre @ (0x3E # 0x3A # d # post)" and d: "is_digit d"
      by auto
    from n s have "match_tail (0x3E # 0x3A # d # post) = None" by (rule regex_exec_None_suffix)
    with d show False by simp
  qed
next
  assume a: "\<not> (\<exists>pre d post. s = pre @ [0x3E, 0x3A, d] @ post \<and> is_digit d)"
  show "regex_exec s = None"
  proof (rule regex_exec_None_if)
    fix pre post assume s: "s = pre @ post"
    show "match_tail post = None"
    proof (rule ccontr)
      assume "match_tail post \<noteq> None"
      then have "starts_with_marker post" by (simp add: match_tail_None_iff)
      then obtain d r where "post = 0x3E # 0x3A # d # r" "is_digit d"
        by (auto simp: starts_with_marker_def)
      with s a show False by auto
    qed
  qed
qed


text \<open>What the pattern captures is a longest run of digits after a \<open>>:\<close>.\<close>

lemma dropWhile_head: "dropWhile P xs = [] \<or> \<not> P (hd (dropWhile P xs))"
  by (metis hd_dropWhile)

lemma match_tail_Some:
  assumes "match_tail s = Some ds"
  shows "\<exists>post. s = [0x3E, 0x3A] @ ds @ post \<and> ds \<noteq> [] \<and> (\<forall>c\<in>set ds. is_digit c)
     \<and> (post = [] \<or> \<not> is_digit (hd post))"
proof (cases s rule: match_tail.cases)
  case (1 a b rest)
  with assms have a: "a = 0x3E" "b = 0x3A" and ds: "ds = takeWhile is_digit rest" "ds \<noteq> []"
    by (auto split: if_splits)
  have "rest = ds @ dropWhile is_digit rest" by (simp add: ds(1))
  with 1 a have "s = [0x3E, 0x3A] @ ds @ dropWhile is_digit rest" by simp
  moreover have "\<forall>c\<in>set ds. is_digit c" unfolding ds(1) by (auto dest: set_takeWhileD)
  ultimately show ?thesis using ds(2) dropWhile_head [of is_digit rest] by blast
qed (use assms in simp_all)

lemma captured_after_marker_Cons:
  "captured_after_marker s ds \<Longrightarrow> captured_after_marker (c # s) ds"
proof -
  assume "captured_after_marker s ds"
  then obtain pre post where "s = pre @ [0x3E, 0x3A] @ ds @ post" "ds \<noteq> []"
    "\<forall>c\<in>set ds. is_digit c" "post = [] \<or> \<not> is_digit (hd post)"
    unfolding captured_after_marker_def by blast
  then have "c # s = (c # pre) @ [0x3E, 0x3A] @ ds @ post \<and> ds \<noteq> []
      \<and> (\<forall>c\<in>set ds. is_digit c) \<and> (post = [] \<or> \<not> is_digit (hd post))"
    by simp
  then show ?thesis unfolding captured_after_marker_def by blast
qed

lemma match_tail_captured: "match_tail s = Some ds \<Longrightarrow> captured_after_marker s ds"
proof -
  assume "match_tail s = Some ds"
  from match_tail_Some [OF this] obtain post where
    "s = [] @ [0x3E, 0x3A] @ ds @ post \<and> ds \<noteq> [] \<and> (\<forall>c\<in>set ds. is_digit c)
      \<and> (post = [] \<or> \<not> is_digit (hd post))"
    by auto
  then show ?thesis unfolding captured_after_marker_def by blast
qed

lemma match_here_captured: "match_here s = Some ds \<Longrightarrow> captured_after_marker s ds"
proof (induction s)
  case Nil
  then show ?case by simp
next
  case (Cons c cs)
  show ?case
  proof (cases "match_here cs")
    case None
    with Cons.prems have "match_tail (c # cs) = Some ds"
      by (simp split: if_splits)
    then show ?thesis by (rule match_tail_captured)
  next
    case (Some d)
    show ?thesis
    proof (cases "is_line_terminator c")
      case True
      with Cons.prems have "match_tail (c # cs) = Some ds" by simp
      then show ?thesis by (rule match_tail_captured)
    next
      case False
      with Cons.prems Some have "d = ds" by simp
      with Some Cons.IH have "captured_after_marker cs ds" by simp
      then show ?thesis by (rule captured_after_marker_Cons)
    qed
  qed
qed

lemma regex_exec_captured: "regex_exec s = Some ds \<Longrightarrow> captured_after_marker s ds"
proof (induction s)
  case Nil
  then show ?case by simp
next
  case (Cons c cs)
  show ?case
  proof (cases "match_here (c # cs)")
    case None
    with Cons.prems have "regex_exec cs = Some ds"
      by (simp only: regex_exec.simps option.case)
    then have "captured_after_marker cs ds" by (rule Cons.IH)
    then show ?thesis by (rule captured_after_marker_Cons)
  next
    case (Some d)
    with Cons.prems have "d = ds" by (simp only: regex_exec.simps option.case option.inject)
    with Some show ?thesis by (simp only: match_here_captured)
  qed
qed

text \<open>The pattern and the number parser on sample lines.\<close>

lemma regex_exec_examples:
  "regex_exec (js ''    at eval (eval at run (main.js:41:7), <anonymous>:12:5)'') = Some (js ''12'')"
  "regex_exec (js ''a>:1 b>:22c'') = Some (js ''22'')"
  "regex_exec (js ''    at parse (parser.js:7:3)'') = None"
  "regex_exec (js ''undefined'') = None"
  by code_simp+

lemma parseInt_examples:
  "parseInt (js ''12'') = Num 12" "parseInt (js ''007'') = Num 7" "parseInt (js ''0'') = Num 0"
  "parseInt (js ''9007199254740993'') = Num 9007199254740992"
  "js_sub (parseInt (js ''9007199254740993'')) (Num 4) = Num 9007199254740988"
  by code_simp+


text \<open>Digits denote a non-negative number; up to \<open>2^53\<close> it is parsed exactly.\<close>

lemma digit_value_nonneg: "is_digit c \<Longrightarrow> 0 \<le> digit_value c"
  by (simp add: is_digit_def digit_value_def word_le_def)

lemma foldl_decimal_nonneg:
  "\<forall>c\<in>set ds. is_digit c \<Longrightarrow> 0 \<le> a \<Longrightarrow> 0 \<le> foldl (\<lambda>n c. 10 * n + digit_value c) a ds"
proof (induction ds arbitrary: a)
  case Nil
  then show ?case by simp
next
  case (Cons d ds)
  from Cons.prems have "0 \<le> 10 * a + digit_value d"
    using digit_value_nonneg [of d] by simp
  with Cons.prems(1) show ?case by (simp add: Cons.IH)
qed

lemma decimal_value_nonneg: "\<forall>c\<in>set ds. is_digit c \<Longrightarrow> 0 \<le> decimal_value ds"
  unfolding decimal_value_def by (rule foldl_decimal_nonneg) simp_all

lemma captured_digits: "captured_after_marker s ds \<Longrightarrow> \<forall>c\<in>set ds. is_digit c"
  unfolding captured_after_marker_def by blast

lemma parseInt_exact:
  "\<forall>c\<in>set ds. is_digit c \<Longrightarrow> decimal_value ds \<le> 2 ^ 53 \<Longrightarrow> parseInt ds = Num (decimal_value ds)"
proof -
  assume "\<forall>c\<in>set ds. is_digit c" and le: "decimal_value ds \<le> 2 ^ 53"
  then have "0 \<le> decimal_value ds" by (simp add: decimal_value_nonneg)
  with le have "\<bar>decimal_value ds\<bar> \<le> 2 ^ 53" by simp
  then show ?thesis unfolding parseInt_def by (rule to_double_exact)
qed

lemma line_exact: "0 \<le> v \<Longrightarrow> v \<le> 2 ^ 53 \<Longrightarrow> js_sub (Num v) (Num 4) = Num (v - 4)"
proof -
  assume "0 \<le> v" "v \<le> 2 ^ 53"
  then have "\<bar>v - 4\<bar> \<le> 2 ^ 53" by simp
  then show ?thesis by (rule js_arith_exact(2))
qed

lemma customParserError_line_in_range:
  assumes "regex_exec (exec_argument (second_line text)) = Some ds"
    and "decimal_value ds \<le> 2 ^ 53"
  shows "parseInt ds = Num (decimal_value ds)"
    and "diag_line (customParserError text fp) = Num (decimal_value ds - 4)"
proof -
  from assms(1) have d: "\<forall>c\<in>set ds. is_digit c"
    by (intro captured_digits regex_exec_captured)
  from d assms(2) show p: "parseInt ds = Num (decimal_value ds)" by (rule parseInt_exact)
  from d have "0 \<le> decimal_value ds" by (rule decimal_value_nonneg)
  then have "js_sub (Num (decimal_value ds)) (Num 4) = Num (decimal_value ds - 4)"
    using assms(2) by (rule line_exact)
  with assms(1) p show "diag_line (customParserError text fp) = Num (decimal_value ds - 4)"
    by (simp add: customParserError_unfold)
qed

text \<open>
  Claim C2. The translator reports the first line of the failure text as the message.
  It looks for the line number in the second line, with the pattern \<open>.*>:(\d+)\<close>,
  which ends in a colon and digits. The second line matches exactly when a \<open>>:\<close>
  followed by a digit occurs in it; the digits captured are then a longest run of digits
  after a \<open>>:\<close>, and the reported line is the number they denote, parsed by
  \<open>parseInt\<close>, less 4. For every failure text whose second line does not match, and
  for every text that has no second line, the reported line is 0.
\<close>

theorem customParserError_message_and_line:
  "diag_message (customParserError text fp) = Some (first_line text)
   \<and> diag_filePath (customParserError text fp) = fp
   \<and> (regex_exec (exec_argument (second_line text)) = None \<longleftrightarrow>
        (\<nexists>pre d post. exec_argument (second_line text) = pre @ [0x3E, 0x3A, d] @ post
          \<and> is_digit d))
   \<and> (regex_exec (exec_argument (second_line text)) = None \<longrightarrow>
        diag_line (customParserError text fp) = Num 0)
   \<and> (second_line text = None \<longrightarrow> diag_line (customParserError text fp) = Num 0)
   \<and> (\<forall>ds. regex_exec (exec_argument (second_line text)) = Some ds \<longrightarrow>
        captured_after_marker (exec_argument (second_line text)) ds
        \<and> diag_line (customParserError text fp) = js_sub (parseInt ds) (Num 4))
   \<and> (\<forall>ds. regex_exec (exec_argument (second_line text)) = Some ds
          \<and> decimal_value ds \<le> 2 ^ 53 \<longrightarrow>
        diag_line (customParserError text fp) = Num (decimal_value ds - 4))"
proof -
  have u: "regex_exec (js ''undefined'') = None" by code_simp
  have a: "diag_message (customParserError text fp) = Some (first_line text)"
    "diag_filePath (customParserError text fp) = fp"
    by (simp_all add: customParserError_unfold)
  have b: "regex_exec (exec_argument (second_line text)) = None \<longrightarrow>
        diag_line (customParserError text fp) = Num 0"
    by (simp add: customParserError_unfold)
  have c: "second_line text = None \<longrightarrow> diag_line (customParserError text fp) = Num 0"
    by (simp add: customParserError_unfold exec_argument_def u)
  have d: "\<forall>ds. regex_exec (exec_argument (second_line text)) = Some ds \<longrightarrow>
        captured_after_marker (exec_argument (second_line text)) ds
        \<and> diag_line (customParserError text fp) = js_sub (parseInt ds) (Num 4)"
    by (simp add: customParserError_unfold regex_exec_captured)
  have e: "\<forall>ds. regex_exec (exec_argument (second_line text)) = Some ds
          \<and> decimal_value ds \<le> 2 ^ 53 \<longrightarrow>
        diag_line (customParserError text fp) = Num (decimal_value ds - 4)"
    by (intro allI impI, elim conjE) (rule customParserError_line_in_range(2))
  from a regex_exec_None_iff [of "exec_argument (second_line text)"] b c d e
  show ?thesis by (intro conjI)
qed

theorem customParserError_message_and_line_witness:
  "regex_exec (exec_argument (second_line
       (js ''Error: boom'' @ [line_feed] @ js ''    at parse (native)''))) = None
   \<and> diag_message (customParserError
       (js ''Error: boom'' @ [line_feed] @ js ''    at parse (native)'') (js ''/p/a.js''))
       = Some (js ''Error: boom'')
   \<and> diag_line (customParserError
       (js ''Error: boom'' @ [line_feed] @ js ''    at parse (native)'') (js ''/p/a.js'')) = Num 0
   \<and> second_line (js ''Error: boom'') = None
   \<and> diag_line (customParserError (js ''Error: boom'') (js ''/p/a.js'')) = Num 0
   \<and> regex_exec (exec_argument (second_line
       (js ''TypeError: x'' @ [line_feed] @ js ''    at eval (eval at run, <anonymous>:12:5)'')))
       = Some (js ''12'')
   \<and> decimal_value (js ''12'') = 12
   \<and> diag_line (customParserError
       (js ''TypeError: x'' @ [line_feed] @ js ''    at eval (eval at run, <anonymous>:12:5)'')
       (js ''/p/a.js'')) = Num 8"
proof -
  let ?t = "js ''Error: boom'' @ [line_feed] @ js ''    at parse (native)''"
  let ?m = "js ''TypeError: x'' @ [line_feed] @ js ''    at eval (eval at run, <anonymous>:12:5)''"
  have n: "regex_exec (exec_argument (second_line ?t)) = None" by code_simp
  have f: "first_line ?t = js ''Error: boom''" by code_simp
  have s: "second_line (js ''Error: boom'') = None" by code_simp
  have m: "regex_exec (exec_argument (second_line ?m)) = Some (js ''12'')" by code_simp
  have v: "decimal_value (js ''12'') = 12" by code_simp
  from customParserError_message_and_line [of ?t "js ''/p/a.js''"] n f
  have r1: "diag_message (customParserError ?t (js ''/p/a.js'')) = Some (js ''Error: boom'')"
    "diag_line (customParserError ?t (js ''/p/a.js'')) = Num 0"
    by simp_all
  from customParserError_message_and_line [of "js ''Error: boom''" "js ''/p/a.js''"] s
  have r2: "diag_line (customParserError (js ''Error: boom'') (js ''/p/a.js'')) = Num 0"
    by simp
  have "\<forall>ds. regex_exec (exec_argument (second_line ?m)) = Some ds
          \<and> decimal_value ds \<le> 2 ^ 53 \<longrightarrow>
        diag_line (customParserError ?m (js ''/p/a.js'')) = Num (decimal_value ds - 4)"
    using customParserError_message_and_line [of ?m "js ''/p/a.js''"] by (elim conjE)
  with m v have r3: "diag_line (customParserError ?m (js ''/p/a.js'')) = Num 8"
    by simp
  from n r1 s r2 m v r3 show ?thesis by (intro conjI)
qed

text \<open>
  Claim C9, as amended. For every failure text whose second line matches the pattern
  with a number \<open>k\<close> of at most \<open>2^53\<close> written after the \<open>>:\<close>, the parsed number is
  \<open>k\<close> and the diagnostic is reported at line \<open>k - 4\<close>. Nothing clamps it: whenever
  \<open>k\<close> is at most 4 the reported line is zero or negative, and there are failure texts
  for which it is negative.
\<close>

theorem customParserError_line_unclamped:
  "(regex_exec (exec_argument (second_line text)) = Some ds \<and> decimal_value ds \<le> 2 ^ 53 \<longrightarrow>
      captured_after_marker (exec_argument (second_line text)) ds
      \<and> parseInt ds = Num (decimal_value ds)
      \<and> diag_line (customParserError text fp) = Num (decimal_value ds - 4)
      \<and> (decimal_value ds \<le> 4 \<longrightarrow>
          (\<exists>l. diag_line (customParserError text fp) = Num l \<and> l \<le> 0)))
   \<and> (\<exists>t d. regex_exec (exec_argument (second_line t)) = Some d \<and> decimal_value d \<le> 2 ^ 53
         \<and> diag_line (customParserError t fp) = Num (- 2))"
proof -
  let ?t = "js ''TypeError: x'' @ [line_feed] @ js ''    at eval (eval at run, <anonymous>:2:5)''"
  have m: "regex_exec (exec_argument (second_line ?t)) = Some (js ''2'')" by code_simp
  have v: "decimal_value (js ''2'') = 2" by code_simp
  then have "decimal_value (js ''2'') \<le> 2 ^ 53" by simp
  with m have "diag_line (customParserError ?t fp) = Num (decimal_value (js ''2'') - 4)"
    by (rule customParserError_line_in_range(2))
  with v have "diag_line (customParserError ?t fp) = Num (- 2)" by simp
  with m v have ex: "\<exists>t d. regex_exec (exec_argument (second_line t)) = Some d
      \<and> decimal_value d \<le> 2 ^ 53 \<and> diag_line (customParserError t fp) = Num (- 2)"
    by (intro exI [of _ ?t] exI [of _ "js ''2''"]) simp
  have "regex_exec (exec_argument (second_line text)) = Some ds \<and> decimal_value ds \<le> 2 ^ 53 \<longrightarrow>
      captured_after_marker (exec_argument (second_line text)) ds
      \<and> parseInt ds = Num (decimal_value ds)
      \<and> diag_line (customParserError text fp) = Num (decimal_value ds - 4)
      \<and> (decimal_value ds \<le> 4 \<longrightarrow>
          (\<exists>l. diag_line (customParserError text fp) = Num l \<and> l \<le> 0))"
  proof (intro impI, elim conjE)
    assume m: "regex_exec (exec_argument (second_line text)) = Some ds"
      and le: "decimal_value ds \<le> 2 ^ 53"
    from m have "captured_after_marker (exec_argument (second_line text)) ds"
      by (rule regex_exec_captured)
    moreover from m le have "parseInt ds = Num (decimal_value ds)"
      by (rule customParserError_line_in_range(1))
    moreover from m le have "diag_line (customParserError text fp) = Num (decimal_value ds - 4)"
      by (rule customParserError_line_in_range(2))
    moreover from m le have "decimal_value ds \<le> 4 \<longrightarrow>
          (\<exists>l. diag_line (customParserError text fp) = Num l \<and> l \<le> 0)"
      by (simp add: customParserError_line_in_range(2))
    ultimately show "captured_after_marker (exec_argument (second_line text)) ds
      \<and> parseInt ds = Num (decimal_value ds)
      \<and> diag_line (customParserError text fp) = Num (decimal_value ds - 4)
      \<and> (decimal_value ds \<le> 4 \<longrightarrow>
          (\<exists>l. diag_line (customParserError text fp) = Num l \<and> l \<le> 0))"
      by (intro conjI)
  qed
  with ex show ?thesis by (intro conjI)
qed

theorem customParserError_line_unclamped_witness:
  "regex_exec (exec_argument (second_line
       (js ''TypeError: x'' @ [line_feed] @ js ''    at eval (eval at run, <anonymous>:12:5)'')))
     = Some (js ''12'')
   \<and> decimal_value (js ''12'') = 12
   \<and> diag_line (customParserError
       (js ''TypeError: x'' @ [line_feed] @ js ''    at eval (eval at run, <anonymous>:12:5)'')
       (js ''/p/a.js'')) = Num 8
   \<and> regex_exec (exec_argument (second_line
       (js ''TypeError: x'' @ [line_feed] @ js ''    at eval (eval at run, <anonymous>:3:1)'')))
     = Some (js ''3'')
   \<and> diag_line (customParserError
       (js ''TypeError: x'' @ [line_feed] @ js ''    at eval (eval at run, <anonymous>:3:1)'')
       (js ''/p/a.js'')) = Num (- 1)"
proof -
  let ?a = "js ''TypeError: x'' @ [line_feed] @ js ''    at eval (eval at run, <anonymous>:12:5)''"
  let ?b = "js ''TypeError: x'' @ [line_feed] @ js ''    at eval (eval at run, <anonymous>:3:1)''"
  have a: "regex_exec (exec_argument (second_line ?a)) = Some (js ''12'')" by code_simp
  have b: "regex_exec (exec_argument (second_line ?b)) = Some (js ''3'')" by code_simp
  have pa: "decimal_value (js ''12'') = 12" by code_simp
  have pb: "decimal_value (js ''3'') = 3" by code_simp
  from customParserError_line_unclamped [of ?a "js ''12''" "js ''/p/a.js''"] a pa
  have la: "diag_line (customParserError ?a (js ''/p/a.js'')) = Num 8" by simp
  from customParserError_line_unclamped [of ?b "js ''3''" "js ''/p/a.js''"] b pb
  have lb: "diag_line (customParserError ?b (js ''/p/a.js'')) = Num (- 1)" by simp
  from a pa la b lb show ?thesis by (intro conjI)
qed

text \<open>
  Claim C9 as worded, for every matching failure text, fails beyond the exact range of
  doubles: the number 36028797018963976 (\<open>2^55 + 8\<close>) is parsed exactly, and the line
  reported is 36028797018963968, which is \<open>k - 8\<close>.
\<close>

theorem customParserError_line_counterexample:
  "regex_exec (exec_argument (second_line
       (js ''TypeError: x'' @ [line_feed]
          @ js ''    at eval (eval at run, <anonymous>:36028797018963976:5)'')))
     = Some (js ''36028797018963976'')
   \<and> parseInt (js ''36028797018963976'') = Num 36028797018963976
   \<and> diag_line (customParserError
       (js ''TypeError: x'' @ [line_feed]
          @ js ''    at eval (eval at run, <anonymous>:36028797018963976:5)'') (js ''/p/a.js''))
     = Num 36028797018963968
   \<and> diag_line (customParserError
       (js ''TypeError: x'' @ [line_feed]
          @ js ''    at eval (eval at run, <anonymous>:36028797018963976:5)'') (js ''/p/a.js''))
     \<noteq> Num (36028797018963976 - 4)"
proof -
  let ?t = "js ''TypeError: x'' @ [line_feed]
          @ js ''    at eval (eval at run, <anonymous>:36028797018963976:5)''"
  have m: "regex_exec (exec_argument (second_line ?t)) = Some (js ''36028797018963976'')"
    by code_simp
  have p: "parseInt (js ''36028797018963976'') = Num 36028797018963976" by code_simp
  have s: "js_sub (Num 36028797018963976) (Num 4) = Num 36028797018963968" by code_simp
  from m p s have l: "diag_line (customParserError ?t (js ''/p/a.js'')) = Num 36028797018963968"
    by (simp add: customParserError_unfold)
  from m p l show ?thesis by simp
qed


section \<open>Proofs: opening a document\<close>

text \<open>
  Claim C8. \<open>openCustomDocument\<close> is total at its interface: for every URI, whatever
  the extension function and the parser selection do, it returns and no exception leaves
  it. It returns a document whose \<open>uri\<close> and \<open>parser\<close> fields are the opened file and
  the selected parser when the selection yields a parser, and \<open>undefined\<close> when the
  selection yields none or throws.
\<close>

theorem openCustomDocument_total:
  "(\<forall>e. openCustomDocument extname selectParserFile u \<noteq> Inl e)
   \<and> (selectParserFile (selection_extension extname (fsPath u)) (fsPath u) = Inr (Some parser) \<longrightarrow>
        openCustomDocument extname selectParserFile u
          = Inr (Some \<lparr>doc_uri = u, doc_parser = parser\<rparr>))
   \<and> (selectParserFile (selection_extension extname (fsPath u)) (fsPath u) = Inr None \<longrightarrow>
        openCustomDocument extname selectParserFile u = Inr None)
   \<and> (selectParserFile (selection_extension extname (fsPath u)) (fsPath u) = Inl err \<longrightarrow>
        openCustomDocument extname selectParserFile u = Inr None)"
  by (auto simp: openCustomDocument_def try_catch_def Let_def split: sum.splits option.splits)

theorem openCustomDocument_total_witness:
  "openCustomDocument (\<lambda>p. js ''.bin'')
      (\<lambda>ext p. if ext = js ''bin'' then Inr (Some (js ''/parsers/bin.js'')) else Inr None)
      \<lparr>fsPath = js ''/data/file.bin''\<rparr>
     = Inr (Some \<lparr>doc_uri = \<lparr>fsPath = js ''/data/file.bin''\<rparr>, doc_parser = js ''/parsers/bin.js''\<rparr>)
   \<and> openCustomDocument (\<lambda>p. js ''.bin'') (\<lambda>ext p. Inr (None :: jsstring option))
      \<lparr>fsPath = js ''/data/file.bin''\<rparr> = Inr None
   \<and> openCustomDocument (\<lambda>p. js ''.bin'')
      (\<lambda>ext p. Inl (Thrown (js ''EACCES'')) :: js_error + jsstring option)
      \<lparr>fsPath = js ''/data/file.bin''\<rparr> = Inr None"
proof -
  let ?u = "\<lparr>fsPath = js ''/data/file.bin''\<rparr>"
  let ?x = "\<lambda>p :: jsstring. js ''.bin''"
  let ?s1 = "\<lambda>(ext :: jsstring) (p :: jsstring).
    if ext = js ''bin'' then Inr (Some (js ''/parsers/bin.js'')) else (Inr None :: js_error + jsstring option)"
  let ?s2 = "\<lambda>(ext :: jsstring) (p :: jsstring). Inr (None :: jsstring option) :: js_error + jsstring option"
  let ?s3 = "\<lambda>(ext :: jsstring) (p :: jsstring). Inl (Thrown (js ''EACCES'')) :: js_error + jsstring option"
  have e: "selection_extension ?x (js ''/data/file.bin'') = js ''bin''"
    by (simp add: selection_extension_def Let_def js_def)
  have h1: "?s1 (selection_extension ?x (fsPath ?u)) (fsPath ?u) = Inr (Some (js ''/parsers/bin.js''))"
    by (simp add: e)
  from openCustomDocument_total [of ?x ?s1 ?u "js ''/parsers/bin.js''"] h1
  have r1: "openCustomDocument ?x ?s1 ?u
      = Inr (Some \<lparr>doc_uri = ?u, doc_parser = js ''/parsers/bin.js''\<rparr>)"
    by (simp only:)
  from openCustomDocument_total [of ?x ?s2 ?u]
  have r2: "openCustomDocument ?x ?s2 ?u = Inr None" by (simp only:)
  from openCustomDocument_total [of ?x ?s3 ?u _ "Thrown (js ''EACCES'')"]
  have r3: "openCustomDocument ?x ?s3 ?u = Inr None" by (simp only:)
  from r1 r2 r3 show ?thesis by (intro conjI)
qed

text \<open>
  The extension that \<open>openCustomDocument\<close> hands to the parser selection is
  \<open>selection_extension\<close>.
\<close>

lemma openCustomDocument_selects_with:
  "openCustomDocument extname selectParserFile u
     = try_catch
         (case selectParserFile (selection_extension extname (fsPath u)) (fsPath u) of
            Inl e \<Rightarrow> Inl e
          | Inr None \<Rightarrow> Inr None
          | Inr (Some parser) \<Rightarrow> Inr (Some \<lparr>doc_uri = u, doc_parser = parser\<rparr>))
         (\<lambda>e. Inr None)"
  by (simp add: openCustomDocument_def Let_def)




section \<open>Proofs: the open command\<close>

lemma sublist_extend_right: "sublist x m \<Longrightarrow> sublist x (m @ ss)"
proof -
  assume "sublist x m"
  then obtain ps rs where "m = ps @ x @ rs" by (auto simp: sublist_def)
  then have "m @ ss = ps @ x @ (rs @ ss)" by simp
  then show ?thesis by (simp only: sublist_appendI)
qed

lemma sublist_append_parser_paths_msg:
  "sublist x msg \<Longrightarrow> sublist x (append_parser_paths msg parserPaths)"
proof (induction parserPaths arbitrary: msg)
  case Nil
  then show ?case by simp
next
  case (Cons p ps)
  from Cons.prems have "sublist x (msg @ [line_feed] @ p)"
    by (rule sublist_extend_right)
  then show ?case by (simp add: Cons.IH)
qed

lemma sublist_append_parser_paths_path:
  "p \<in> set parserPaths \<Longrightarrow> sublist p (append_parser_paths msg parserPaths)"
proof (induction parserPaths arbitrary: msg)
  case Nil
  then show ?case by simp
next
  case (Cons q qs)
  show ?case
  proof (cases "p = q")
    case True
    have "sublist p ((msg @ [line_feed]) @ p @ [])" by (rule sublist_appendI)
    then have "sublist p (msg @ [line_feed] @ p)" by simp
    then have "sublist p (append_parser_paths (msg @ [line_feed] @ p) qs)"
      by (rule sublist_append_parser_paths_msg)
    with True show ?thesis by simp
  next
    case False
    with Cons.prems have "p \<in> set qs" by simp
    then show ?thesis by (simp add: Cons.IH)
  qed
qed

lemma no_parser_message_names_file: "sublist base (no_parser_message base parserPaths)"
proof -
  let ?m = "js ''Binary-File-Viewer: No parser available for '' @ [quote] @ base
              @ [quote] @ js ''.'' @ [line_feed]"
  have "sublist base ((js ''Binary-File-Viewer: No parser available for '' @ [quote]) @ base
      @ ([quote] @ js ''.'' @ [line_feed]))"
    by (rule sublist_appendI)
  then have m: "sublist base ?m" by simp
  then have "sublist base (?m @ js ''Tried parser(s): '')"
    by (rule sublist_extend_right)
  then have "sublist base (append_parser_paths (?m @ js ''Tried parser(s): '') parserPaths)"
    by (rule sublist_append_parser_paths_msg)
  with m show ?thesis by (simp add: no_parser_message_def Let_def)
qed

lemma no_parser_message_names_parsers:
  "p \<in> set parserPaths \<Longrightarrow> sublist p (no_parser_message base parserPaths)"
proof -
  assume p: "p \<in> set parserPaths"
  then have "0 < length parserPaths" by (cases parserPaths) simp_all
  with p show ?thesis
    by (simp add: no_parser_message_def Let_def sublist_append_parser_paths_path)
qed

text \<open>
  Claim C4. When the parser selection for a file yields no parser, the open command
  makes one call, \<open>showErrorMessage\<close>, and so does not open the viewer. The message
  contains the base name of the file and every path of the list that
  \<open>getTestedParserFilePaths()\<close> returns (none when the list is empty).
\<close>

theorem open_command_without_parser:
  assumes "selectParserFile (fsPath u) = Inr None"
  shows "\<exists>msg calls. open_command basename selectParserFile testedParserFilePaths u = Inr calls
          \<and> calls = [ShowErrorMessage msg]
          \<and> (\<forall>command target view. ExecuteCommand command target view \<notin> set calls)
          \<and> sublist (basename (fsPath u)) msg
          \<and> (\<forall>parserPath \<in> set testedParserFilePaths. sublist parserPath msg)"
proof -
  have "open_command basename selectParserFile testedParserFilePaths u =
      Inr [ShowErrorMessage (no_parser_message (basename (fsPath u)) testedParserFilePaths)]"
    using assms by (simp add: open_command_def Let_def)
  then show ?thesis
    by (simp add: no_parser_message_names_file no_parser_message_names_parsers)
qed

theorem open_command_without_parser_witness:
  "(\<lambda>p. Inr None :: js_error + jsstring option) (fsPath \<lparr>fsPath = js ''/data/file.bin''\<rparr>) = Inr None
   \<and> (\<exists>msg. open_command (\<lambda>p. js ''file.bin'') (\<lambda>p. Inr None :: js_error + jsstring option)
               [js ''/parsers/a.js'', js ''/parsers/b.js''] \<lparr>fsPath = js ''/data/file.bin''\<rparr>
             = Inr [ShowErrorMessage msg]
          \<and> sublist (js ''file.bin'') msg
          \<and> sublist (js ''/parsers/a.js'') msg \<and> sublist (js ''/parsers/b.js'') msg)"
proof -
  let ?sel = "\<lambda>p :: jsstring. Inr None :: js_error + jsstring option"
  let ?u = "\<lparr>fsPath = js ''/data/file.bin''\<rparr>"
  have h: "?sel (fsPath ?u) = Inr None" by simp
  from open_command_without_parser [of ?sel ?u "\<lambda>p. js ''file.bin''"
      "[js ''/parsers/a.js'', js ''/parsers/b.js'']", OF h]
  obtain msg calls where
    "open_command (\<lambda>p. js ''file.bin'') ?sel [js ''/parsers/a.js'', js ''/parsers/b.js''] ?u
       = Inr calls"
    "calls = [ShowErrorMessage msg]"
    "sublist ((\<lambda>p. js ''file.bin'') (fsPath ?u)) msg"
    "\<forall>parserPath \<in> set [js ''/parsers/a.js'', js ''/parsers/b.js'']. sublist parserPath msg"
    by blast
  then have "open_command (\<lambda>p. js ''file.bin'') ?sel [js ''/parsers/a.js'', js ''/parsers/b.js''] ?u
       = Inr [ShowErrorMessage msg]
     \<and> sublist (js ''file.bin'') msg
     \<and> sublist (js ''/parsers/a.js'') msg \<and> sublist (js ''/parsers/b.js'') msg"
    by simp
  then show ?thesis by blast
qed

text \<open>The message in full, for a file with two tested parsers.\<close>

lemma open_command_example:
  "open_command (\<lambda>p. js ''file.bin'') (\<lambda>p. Inr None :: js_error + jsstring option)
       [js ''/parsers/a.js'', js ''/parsers/b.js''] \<lparr>fsPath = js ''/data/file.bin''\<rparr>
     = Inr [ShowErrorMessage (js ''Binary-File-Viewer: No parser available for '' @ [quote]
         @ js ''file.bin'' @ [quote] @ js ''.'' @ [line_feed] @ js ''Tried parser(s): ''
         @ [line_feed] @ js ''/parsers/a.js'' @ [line_feed] @ js ''/parsers/b.js'')]"
  by (simp add: open_command_def no_parser_message_def)

section \<open>Proofs: file renames\<close>

lemma merge_renamed_eq:
  "merge_renamed merged files = merged @ concat (map (\<lambda>r. [newUri r, oldUri r]) files)"
  by (induction files arbitrary: merged) simp_all

text \<open>
  Claim C6. For every file-rename event, \<open>updateIfParserFile\<close> is called, once, with a
  list of paths that contains both the old and the new URI of every renamed file of the
  event.
\<close>

theorem onDidRenameFiles_updates_both_paths:
  "\<exists>merged. onDidRenameFiles files = [UpdateIfParserFile merged]
     \<and> (\<forall>renamedFile \<in> set files. oldUri renamedFile \<in> set merged \<and> newUri renamedFile \<in> set merged)"
  by (auto simp: onDidRenameFiles_def merge_renamed_eq)

theorem onDidRenameFiles_witness:
  "onDidRenameFiles [\<lparr>oldUri = \<lparr>fsPath = js ''/p/old.js''\<rparr>, newUri = \<lparr>fsPath = js ''/p/new.js''\<rparr>\<rparr>]
     = [UpdateIfParserFile [\<lparr>fsPath = js ''/p/new.js''\<rparr>, \<lparr>fsPath = js ''/p/old.js''\<rparr>]]
   \<and> (\<exists>merged.
        onDidRenameFiles [\<lparr>oldUri = \<lparr>fsPath = js ''/p/old.js''\<rparr>, newUri = \<lparr>fsPath = js ''/p/new.js''\<rparr>\<rparr>]
          = [UpdateIfParserFile merged]
        \<and> \<lparr>fsPath = js ''/p/old.js''\<rparr> \<in> set merged \<and> \<lparr>fsPath = js ''/p/new.js''\<rparr> \<in> set merged)"
proof -
  let ?r = "\<lparr>oldUri = \<lparr>fsPath = js ''/p/old.js''\<rparr>, newUri = \<lparr>fsPath = js ''/p/new.js''\<rparr>\<rparr>"
  have "onDidRenameFiles [?r]
      = [UpdateIfParserFile [\<lparr>fsPath = js ''/p/new.js''\<rparr>, \<lparr>fsPath = js ''/p/old.js''\<rparr>]]"
    by (simp add: onDidRenameFiles_def)
  moreover from onDidRenameFiles_updates_both_paths [of "[?r]"]
  have "\<exists>merged. onDidRenameFiles [?r] = [UpdateIfParserFile merged]
        \<and> \<lparr>fsPath = js ''/p/old.js''\<rparr> \<in> set merged \<and> \<lparr>fsPath = js ''/p/new.js''\<rparr> \<in> set merged"
    by simp
  ultimately show ?thesis by (intro conjI)
qed

section \<open>Proofs: the configured parser folders\<close>

lemma getParserPaths_loop_eq:
  "getParserPaths_loop fs parserFolders correctFolders shown =
     (correctFolders @ filter (is_directory_on_disk fs) parserFolders,
      shown @ map (settings_error fs) (filter (\<lambda>f. \<not> is_directory_on_disk fs f) parserFolders))"
  by (induction parserFolders arbitrary: correctFolders shown)
     (simp_all add: is_directory_on_disk_def settings_error_def)

lemma error_messages_name_path:
  "sublist folder (does_not_exist_message folder)" "sublist folder (not_a_directory_message folder)"
proof -
  have "sublist folder ((js ''Settings: The path '' @ [quote]) @ folder
      @ ([quote] @ js '' does not exist.''))"
    by (rule sublist_appendI)
  then show "sublist folder (does_not_exist_message folder)"
    by (simp add: does_not_exist_message_def)
  have "sublist folder ((js ''Settings: The path '' @ [quote]) @ folder
      @ ([quote] @ js '' is not a directory.''))"
    by (rule sublist_appendI)
  then show "sublist folder (not_a_directory_message folder)"
    by (simp add: not_a_directory_message_def)
qed

text \<open>
  Claim C7. \<open>getParserPaths\<close> returns exactly those entries of the configured list
  that exist on disk and are directories, in the order of the configuration. For the
  excluded entries, in their order, it shows one error message each, and that message
  contains the path of the entry.
\<close>

theorem getParserPaths_keeps_directories:
  "fst (getParserPaths fs parserFolders) = filter (is_directory_on_disk fs) parserFolders
   \<and> snd (getParserPaths fs parserFolders)
       = map (settings_error fs) (filter (\<lambda>f. \<not> is_directory_on_disk fs f) parserFolders)
   \<and> (\<forall>folder. \<exists>msg. settings_error fs folder = ShowErrorMessage msg \<and> sublist folder msg)"
  by (simp add: getParserPaths_def getParserPaths_loop_eq settings_error_def error_messages_name_path)


theorem getParserPaths_witness:
  "getParserPaths
      \<lparr>existsSync = (\<lambda>p. p = js ''/a'' \<or> p = js ''/b.txt''), lstat_isDirectory = (\<lambda>p. p = js ''/a'')\<rparr>
      [js ''/a'', js ''/missing'', js ''/b.txt'']
     = ([js ''/a''],
        [ShowErrorMessage (js ''Settings: The path '' @ [quote] @ js ''/missing'' @ [quote]
           @ js '' does not exist.''),
         ShowErrorMessage (js ''Settings: The path '' @ [quote] @ js ''/b.txt'' @ [quote]
           @ js '' is not a directory.'')])"
proof -
  let ?fs = "\<lparr>existsSync = (\<lambda>p. p = js ''/a'' \<or> p = js ''/b.txt''),
              lstat_isDirectory = (\<lambda>p. p = js ''/a'')\<rparr>"
  let ?folders = "[js ''/a'', js ''/missing'', js ''/b.txt'']"
  have d: "is_directory_on_disk ?fs (js ''/a'')" "\<not> is_directory_on_disk ?fs (js ''/missing'')"
    "\<not> is_directory_on_disk ?fs (js ''/b.txt'')"
    by (simp_all add: is_directory_on_disk_def js_def)
  have e: "settings_error ?fs (js ''/missing'') = ShowErrorMessage (js ''Settings: The path ''
      @ [quote] @ js ''/missing'' @ [quote] @ js '' does not exist.'')"
    "settings_error ?fs (js ''/b.txt'') = ShowErrorMessage (js ''Settings: The path ''
      @ [quote] @ js ''/b.txt'' @ [quote] @ js '' is not a directory.'')"
    by (simp_all add: settings_error_def does_not_exist_message_def not_a_directory_message_def js_def)
  from getParserPaths_keeps_directories [of ?fs ?folders]
  have "fst (getParserPaths ?fs ?folders) = filter (is_directory_on_disk ?fs) ?folders"
    "snd (getParserPaths ?fs ?folders)
       = map (settings_error ?fs) (filter (\<lambda>f. \<not> is_directory_on_disk ?fs f) ?folders)"
    by (simp_all only:)
  with d e have "fst (getParserPaths ?fs ?folders) = [js ''/a'']"
    "snd (getParserPaths ?fs ?folders) =
        [ShowErrorMessage (js ''Settings: The path '' @ [quote] @ js ''/missing'' @ [quote]
           @ js '' does not exist.''),
         ShowErrorMessage (js ''Settings: The path '' @ [quote] @ js ''/b.txt'' @ [quote]
           @ js '' is not a directory.'')]"
    by (simp_all only: filter.simps list.map if_True if_False not_True_eq_False not_False_eq_True)
  then show ?thesis by (simp only: prod_eq_iff fst_conv snd_conv) 
qed


end
